theory Spec2Isabelle
  imports Complex_Main "HOL-Library.Word" "HOL-Library.AList"
begin

unbundle bit_operations_syntax

section \<open>The digest: \<open>hashlib.sha256(key.encode()).hexdigest()\<close>\<close>

text \<open>
  \<open>DataStore.hash_func\<close> (storage.py, lines 61-63) places a key by the SHA-256 digest of
  its UTF-8 bytes, written as 64 lower-case hexadecimal characters. A key is modelled by
  its encoded bytes (a \<open>string\<close>, one \<open>char\<close> per byte); \<open>str.encode\<close> is injective, so
  equality of keys is equality of these byte strings. The digest follows FIPS 180-4 on
  32-bit words.
\<close>

type_synonym w32 = "32 word"

type_synonym hstate = "w32 \<times> w32 \<times> w32 \<times> w32 \<times> w32 \<times> w32 \<times> w32 \<times> w32"

definition rotr :: "nat \<Rightarrow> w32 \<Rightarrow> w32" where
  "rotr n x = (drop_bit n x) OR (push_bit (32 - n) x)"

definition K256 :: "w32 list" where
  "K256 = [
    1116352408, 1899447441, 3049323471, 3921009573, 961987163, 1508970993, 2453635748, 2870763221,
    3624381080, 310598401, 607225278, 1426881987, 1925078388, 2162078206, 2614888103, 3248222580,
    3835390401, 4022224774, 264347078, 604807628, 770255983, 1249150122, 1555081692, 1996064986,
    2554220882, 2821834349, 2952996808, 3210313671, 3336571891, 3584528711, 113926993, 338241895,
    666307205, 773529912, 1294757372, 1396182291, 1695183700, 1986661051, 2177026350, 2456956037,
    2730485921, 2820302411, 3259730800, 3345764771, 3516065817, 3600352804, 4094571909, 275423344,
    430227734, 506948616, 659060556, 883997877, 958139571, 1322822218, 1537002063, 1747873779,
    1955562222, 2024104815, 2227730452, 2361852424, 2428436474, 2756734187, 3204031479, 3329325298]"

definition H0 :: hstate where
  "H0 = (1779033703, 3144134277, 1013904242, 2773480762,
         1359893119, 2600822924, 528734635, 1541459225)"

text \<open>
  Padding, one list element per byte: the message, the byte 128, zero bytes up to 56
  modulo 64, and the bit length as eight big-endian bytes.
\<close>

definition pad :: "string \<Rightarrow> w32 list" where
  "pad m = (let l = length m in
     map (\<lambda>c. of_nat (of_char c)) m @ [128] @ replicate ((64 - (l + 9) mod 64) mod 64) 0
       @ map (\<lambda>i. of_nat ((8 * l) div 256 ^ i mod 256)) [7, 6, 5, 4, 3, 2, 1, 0])"

fun to_words :: "w32 list \<Rightarrow> w32 list" where
  "to_words (a # b # c # d # r) =
     (push_bit 24 a OR push_bit 16 b OR push_bit 8 c OR d) # to_words r"
| "to_words _ = []"

primrec blocks :: "nat \<Rightarrow> w32 list \<Rightarrow> w32 list list" where
  "blocks 0 ws = []"
| "blocks (Suc n) ws = take 16 ws # blocks n (drop 16 ws)"

definition ssig0 :: "w32 \<Rightarrow> w32" where
  "ssig0 x = rotr 7 x XOR rotr 18 x XOR drop_bit 3 x"

definition ssig1 :: "w32 \<Rightarrow> w32" where
  "ssig1 x = rotr 17 x XOR rotr 19 x XOR drop_bit 10 x"

definition bsig0 :: "w32 \<Rightarrow> w32" where
  "bsig0 x = rotr 2 x XOR rotr 13 x XOR rotr 22 x"

definition bsig1 :: "w32 \<Rightarrow> w32" where
  "bsig1 x = rotr 6 x XOR rotr 11 x XOR rotr 25 x"

text \<open>The message schedule is kept newest word first.\<close>

primrec schedule :: "nat \<Rightarrow> w32 list \<Rightarrow> w32 list" where
  "schedule 0 ws = ws"
| "schedule (Suc n) ws =
     schedule n ((ssig1 (ws ! 1) + ws ! 6 + ssig0 (ws ! 14) + ws ! 15) # ws)"

fun round256 :: "hstate \<Rightarrow> w32 \<times> w32 \<Rightarrow> hstate" where
  "round256 (a, b, c, d, e, f, g, h) (k, w) =
     (let t1 = h + bsig1 e + ((e AND f) XOR (NOT e AND g)) + k + w;
          t2 = bsig0 a + ((a AND b) XOR (a AND c) XOR (b AND c))
      in (t1 + t2, a, b, c, d + t1, e, f, g))"

fun add_state :: "hstate \<Rightarrow> hstate \<Rightarrow> hstate" where
  "add_state (a, b, c, d, e, f, g, h) (a', b', c', d', e', f', g', h') =
     (a + a', b + b', c + c', d + d', e + e', f + f', g + g', h + h')"

definition compress :: "hstate \<Rightarrow> w32 list \<Rightarrow> hstate" where
  "compress st blk = add_state st (foldl round256 st (zip K256 (rev (schedule 48 (rev blk)))))"

definition sha256 :: "string \<Rightarrow> hstate" where
  "sha256 m = (let ws = to_words (pad m) in foldl compress H0 (blocks (length ws div 16) ws))"

definition hexdigit :: "nat \<Rightarrow> char" where
  "hexdigit n = ''0123456789abcdef'' ! n"

definition hex8 :: "w32 \<Rightarrow> string" where
  "hex8 w = map (\<lambda>i. hexdigit (unat (drop_bit (4 * i) w AND 15))) [7, 6, 5, 4, 3, 2, 1, 0]"

fun hexdigest :: "hstate \<Rightarrow> string" where
  "hexdigest (a, b, c, d, e, f, g, h) = concat (map hex8 [a, b, c, d, e, f, g, h])"

definition hash_func :: "string \<Rightarrow> string" where
  "hash_func key = hexdigest (sha256 key)"

section \<open>Chain nodes and the table\<close>

text \<open>
  A \<open>Node\<close> (lines 8-35) holds a key, a value and the link \<open>next\<close>. A chain is the list
  of its nodes from the head on: \<open>None\<close> is \<open>[]\<close>, and \<open>node.next\<close> is the tail of the
  list that starts at \<open>node\<close>. Nodes are only linked by the table's own methods, which
  never share a node between two chains.
\<close>

datatype 'v Node = Node (key: string) (val: 'v)

text \<open>
  \<open>DataStore\<close> (lines 37-43): \<open>_cache\<close> is a Python dict from digest to the head of a
  chain. A dict keeps its keys in insertion order and \<open>resize\<close> walks it in that order,
  so it is an association list: \<open>map_of\<close> reads it, \<open>AList.update\<close> stores (in place for
  a key that is there, at the end for a new one). The class attribute
  \<open>_is_multithreading\<close> is \<open>threading.active_count() > 1\<close> at class creation; this is a
  model of a single thread of execution, where it is \<open>False\<close> and every
  \<open>with ... nullcontext()\<close> block is just its body.
\<close>

record 'v DataStore =
  cache :: "(string \<times> 'v Node list) list"
  capacity :: int

datatype error =
    DuplicateKeyError      \<comment> \<open>\<open>RuntimeError\<close> "Node with key ... already exists", line 96\<close>
  | KeyNotFoundError       \<comment> \<open>\<open>RuntimeError\<close> "No node with key ... exists in cache", lines 132, 152\<close>
  | InvalidCapacityError   \<comment> \<open>\<open>RuntimeError\<close> "Capacity must be greater than 0", line 70\<close>
  | KeyError string        \<comment> \<open>Python's own \<open>KeyError\<close>, from \<open>self.cache[hash_key]\<close> on a missing digest\<close>
  | AttributeError         \<comment> \<open>Python's own \<open>AttributeError\<close>, from \<open>cur_node.key\<close> on \<open>None\<close>\<close>

definition init :: "int \<Rightarrow> 'v DataStore" where
  "init c = \<lparr>cache = [], capacity = c\<rparr>"

definition size_ds :: "'v DataStore \<Rightarrow> int" where
  "size_ds s = int (length (cache s))"

definition contains :: "'v DataStore \<Rightarrow> string \<Rightarrow> bool" where
  "contains s k = (map_of (cache s) k \<noteq> None)"

text \<open>
  \<open>math.ceil(self.capacity * 1.5)\<close> (line 89). The product is a float; it is exact as
  long as three times the capacity stays below \<open>2 ^ 53\<close>, far beyond any table that
  fits in memory, so the real number stands for it.
\<close>

definition grown :: "int \<Rightarrow> int" where
  "grown c = \<lceil>real_of_int c * 1.5\<rceil>"

text \<open>
  Lines 91-118 of \<open>insert\<close>, after the growth check. \<open>print(cur_node.key)\<close> (line 93)
  writes to standard output, which is not modelled, and raises on a bucket that holds
  \<open>None\<close>.
\<close>

definition place :: "'v DataStore \<Rightarrow> string \<Rightarrow> 'v \<Rightarrow> (error + 'v Node) \<times> 'v DataStore" where
  "place s k v =
     (let hash_key = hash_func k; node = Node k v in
      case map_of (cache s) hash_key of
        None \<Rightarrow> (Inr node, s\<lparr>cache := AList.update hash_key [node] (cache s)\<rparr>)
      | Some [] \<Rightarrow> (Inl AttributeError, s)
      | Some (c # cs) \<Rightarrow>
          (if find (\<lambda>n. key n = k) (c # cs) \<noteq> None then (Inl DuplicateKeyError, s)
           else (Inr node, s\<lparr>cache := AList.update hash_key (node # c # cs) (cache s)\<rparr>)))"

text \<open>
  \<open>insert\<close> (lines 83-118) calls \<open>resize\<close> (lines 68-81), whose loop calls \<open>insert\<close>. The
  first argument bounds the depth of these calls; \<open>None\<close> means the bound was reached.
  \<open>resize\<close> reads the chains of the old dict (the view \<open>nodes\<close> stays on it) while the
  inserts fill the new one; an exception leaves the table as it is at that moment.
\<close>

fun insert_fuel :: "nat \<Rightarrow> 'v DataStore \<Rightarrow> string \<Rightarrow> 'v \<Rightarrow> ((error + 'v Node) \<times> 'v DataStore) option"
and resize_fuel :: "nat \<Rightarrow> 'v DataStore \<Rightarrow> int \<Rightarrow> ((error + unit) \<times> 'v DataStore) option"
and reinsert :: "nat \<Rightarrow> 'v DataStore \<Rightarrow> 'v Node list \<Rightarrow> ((error + unit) \<times> 'v DataStore) option"
where
  "insert_fuel 0 s k v = None"
| "insert_fuel (Suc n) s k v =
     (if size_ds s = capacity s then
        (case resize_fuel n s (grown (capacity s)) of
           None \<Rightarrow> None
         | Some (Inl e, s') \<Rightarrow> Some (Inl e, s')
         | Some (Inr u, s') \<Rightarrow> Some (place s' k v))
      else Some (place s k v))"
| "resize_fuel n s new_capacity =
     (if new_capacity \<le> 0 then Some (Inl InvalidCapacityError, s)
      else reinsert n (s\<lparr>capacity := new_capacity, cache := []\<rparr>) (concat (map snd (cache s))))"
| "reinsert n s [] = Some (Inr (), s)"
| "reinsert n s (node # nodes) =
     (case insert_fuel n s (key node) (val node) of
        None \<Rightarrow> None
      | Some (Inl e, s') \<Rightarrow> Some (Inl e, s')
      | Some (Inr r, s') \<Rightarrow> reinsert n s' nodes)"

text \<open>\<open>update\<close> (lines 120-132): the loop overwrites the value of the first node with the key.\<close>

fun set_value :: "'v Node list \<Rightarrow> string \<Rightarrow> 'v \<Rightarrow> ('v Node \<times> 'v Node list) option" where
  "set_value [] k v = None"
| "set_value (n # ns) k v =
     (if key n = k then Some (Node (key n) v, Node (key n) v # ns)
      else map_option (\<lambda>(r, ns'). (r, n # ns')) (set_value ns k v))"

definition update :: "'v DataStore \<Rightarrow> string \<Rightarrow> 'v \<Rightarrow> (error + 'v Node) \<times> 'v DataStore" where
  "update s k v =
     (let hash_key = hash_func k in
      case map_of (cache s) hash_key of
        None \<Rightarrow> (Inl (KeyError hash_key), s)
      | Some chain \<Rightarrow>
          (case set_value chain k v of
             Some (node, chain') \<Rightarrow> (Inr node, s\<lparr>cache := AList.update hash_key chain' (cache s)\<rparr>)
           | None \<Rightarrow> (Inl KeyNotFoundError, s)))"

text \<open>\<open>delete\<close> (lines 134-152): the loop unlinks the first node with the key.\<close>

fun unlink :: "'v Node list \<Rightarrow> string \<Rightarrow> 'v Node list option" where
  "unlink [] k = None"
| "unlink (n # ns) k = (if key n = k then Some ns else map_option ((#) n) (unlink ns k))"

definition delete :: "'v DataStore \<Rightarrow> string \<Rightarrow> (error + unit) \<times> 'v DataStore" where
  "delete s k =
     (let hash_key = hash_func k in
      case map_of (cache s) hash_key of
        None \<Rightarrow> (Inl (KeyError hash_key), s)
      | Some chain \<Rightarrow>
          (case unlink chain k of
             Some chain' \<Rightarrow> (Inr (), s\<lparr>cache := AList.update hash_key chain' (cache s)\<rparr>)
           | None \<Rightarrow> (Inl KeyNotFoundError, s)))"

text \<open>\<open>search\<close> (lines 154-163); it falls off its end, returning \<open>None\<close>, when the bucket is missing.\<close>

definition search :: "'v DataStore \<Rightarrow> string \<Rightarrow> 'v Node option" where
  "search s k =
     (let hash_key = hash_func k in
      if contains s hash_key then
        (case map_of (cache s) hash_key of
           Some chain \<Rightarrow> find (\<lambda>n. key n = k) chain
         | None \<Rightarrow> None)
      else None)"

section \<open>Reachable tables and their invariant\<close>

text \<open>
  The tables a client can obtain: the constructor accepts any capacity (lines 40-43 check
  nothing), and every public method may follow, also one that ends in an exception, which
  leaves the table as it stands at the \<open>raise\<close>.
\<close>

inductive reachable :: "'v DataStore \<Rightarrow> bool" where
  r_init: "reachable (init c)"
| r_insert: "reachable s \<Longrightarrow> insert_fuel n s k v = Some (r, s') \<Longrightarrow> reachable s'"
| r_resize: "reachable s \<Longrightarrow> resize_fuel n s c = Some (u, s') \<Longrightarrow> reachable s'"
| r_update: "reachable s \<Longrightarrow> update s k v = (r, s') \<Longrightarrow> reachable s'"
| r_delete: "reachable s \<Longrightarrow> delete s k = (u, s') \<Longrightarrow> reachable s'"

text \<open>
  A dict has each key once; within a chain no key occurs twice, and every node sits in
  the bucket of its own digest.
\<close>

definition wf_cache :: "(string \<times> 'v Node list) list \<Rightarrow> bool" where
  "wf_cache al =
     (distinct (map fst al) \<and>
      (\<forall>(d, chain) \<in> set al. distinct (map key chain) \<and> (\<forall>n \<in> set chain. hash_func (key n) = d)))"

definition wf :: "'v DataStore \<Rightarrow> bool" where
  "wf s = wf_cache (cache s)"

text \<open>No bucket holds \<open>None\<close>.\<close>

definition nonempty :: "'v DataStore \<Rightarrow> bool" where
  "nonempty s = (\<forall>d. map_of (cache s) d \<noteq> Some [])"

text \<open>All nodes of the table, in the order in which \<open>resize\<close> visits them.\<close>

definition entries :: "'v DataStore \<Rightarrow> 'v Node list" where
  "entries s = concat (map snd (cache s))"

definition digests :: "'v Node list \<Rightarrow> string set" where
  "digests ns = hash_func ` key ` set ns"

definition buckets :: "'v DataStore \<Rightarrow> string set" where
  "buckets s = fst ` set (cache s)"

text \<open>The table after a successful \<open>place\<close>: the new node heads the chain of its digest.\<close>

definition push :: "'v DataStore \<Rightarrow> string \<Rightarrow> 'v \<Rightarrow> 'v DataStore" where
  "push s k v =
     s\<lparr>cache := AList.update (hash_func k)
            (Node k v # (case map_of (cache s) (hash_func k) of None \<Rightarrow> [] | Some c \<Rightarrow> c)) (cache s)\<rparr>"

section \<open>Properties of the model\<close>

lemma hexdigest_length: "length (hexdigest st) = 64"
  by (cases st rule: hexdigest.cases) (simp add: hex8_def)

lemma hash_func_length: "length (hash_func k) = 64"
  by (simp add: hash_func_def hexdigest_length)

lemma grown_int: "grown c = (3 * c + 1) div 2"
proof -
  have "real_of_int c * 1.5 = of_int (3 * c) / of_int 2" by simp
  then have "grown c = - (- (3 * c) div 2)"
    unfolding grown_def using ceiling_divide_eq_div [where ?'a = real, of "3 * c" 2]
    by (simp add: mult.commute)
  then show ?thesis by presburger
qed

lemma grown_gt: "0 < c \<Longrightarrow> c < grown c"
  by (simp add: grown_int)

lemma search_alt:
  "search s k = (case map_of (cache s) (hash_func k) of None \<Rightarrow> None
                 | Some chain \<Rightarrow> find (\<lambda>n. key n = k) chain)"
  by (simp add: search_def contains_def split: option.splits)

lemma size_ds_card: "distinct (map fst (cache s)) \<Longrightarrow> size_ds s = int (card (buckets s))"
  using distinct_card [of "map fst (cache s)"] by (simp add: size_ds_def buckets_def)

lemma wf_distinct: "wf s \<Longrightarrow> distinct (map fst (cache s))"
  by (simp add: wf_def wf_cache_def)

lemma wf_chain:
  "wf s \<Longrightarrow> map_of (cache s) d = Some chain \<Longrightarrow>
     distinct (map key chain) \<and> (\<forall>n \<in> set chain. hash_func (key n) = d)"
  by (auto simp: wf_def wf_cache_def dest: map_of_SomeD)

lemma wf_cacheI:
  assumes "distinct (map fst al)"
    and "\<And>d chain. map_of al d = Some chain \<Longrightarrow>
           distinct (map key chain) \<and> (\<forall>n \<in> set chain. hash_func (key n) = d)"
  shows "wf_cache al"
  unfolding wf_cache_def using assms by (auto simp del: distinct_map)

lemma nonempty_map_of: "nonempty s \<Longrightarrow> map_of (cache s) d \<noteq> Some []"
  by (simp add: nonempty_def)

lemma find_None_keys: "find (\<lambda>n. key n = k) ns = None \<longleftrightarrow> k \<notin> key ` set ns"
  by (auto simp: find_None_iff)

lemma place_ok:
  "map_of (cache s) (hash_func k) \<noteq> Some [] \<Longrightarrow> search s k = None \<Longrightarrow>
     place s k v = (Inr (Node k v), push s k v)"
  by (auto simp: place_def push_def search_alt Let_def split: option.splits list.splits)

lemma capacity_push: "capacity (push s k v) = capacity s"
  by (simp add: push_def)

lemma buckets_push: "buckets (push s k v) = insert (hash_func k) (buckets s)"
  by (simp add: push_def buckets_def dom_update)

lemma search_push:
  "search (push s k v) k' = (if k' = k then Some (Node k v) else search s k')"
  by (auto simp: search_alt push_def update_conv' split: option.splits)

lemma wf_push:
  assumes "wf s" and "search s k = None"
  shows "wf (push s k v)"
  unfolding wf_def push_def
proof (simp, rule wf_cacheI)
  show "distinct (map fst (AList.update (hash_func k)
      (Node k v # (case map_of (cache s) (hash_func k) of None \<Rightarrow> [] | Some c \<Rightarrow> c)) (cache s)))"
    using wf_distinct [OF assms(1)] by (rule distinct_update)
next
  fix d chain
  assume "map_of (AList.update (hash_func k)
      (Node k v # (case map_of (cache s) (hash_func k) of None \<Rightarrow> [] | Some c \<Rightarrow> c)) (cache s)) d = Some chain"
  then show "distinct (map key chain) \<and> (\<forall>n \<in> set chain. hash_func (key n) = d)"
    using assms(2) wf_chain [OF assms(1)]
    by (auto simp: update_conv' search_alt find_None_keys split: if_splits option.splits)
qed

lemma nonempty_push: "nonempty s \<Longrightarrow> nonempty (push s k v)"
  unfolding nonempty_def push_def
  by (auto simp: update_conv' split: option.splits)

lemma insert_fuel_no_growth:
  "size_ds s \<noteq> capacity s \<Longrightarrow> insert_fuel (Suc n) s k v = Some (place s k v)"
  by simp

lemma digests_Cons: "digests (n # ns) = insert (hash_func (key n)) (digests ns)"
  by (simp add: digests_def)

lemma find_key_Cons:
  "find (\<lambda>n. key n = k) (n # ns) = (if key n = k then Some n else find (\<lambda>n. key n = k) ns)"
  by simp

text \<open>Rehashing into a table that has room for every digest never grows it.\<close>

lemma reinsert_no_growth:
  assumes "wf t" and "nonempty t" and "distinct (map key ns)"
    and "\<forall>n \<in> set ns. search t (key n) = None"
    and "int (card (buckets t \<union> digests ns)) < capacity t"
  shows "\<exists>t'. reinsert (Suc m) t ns = Some (Inr (), t') \<and> wf t' \<and> nonempty t'
           \<and> capacity t' = capacity t \<and> buckets t' = buckets t \<union> digests ns
           \<and> (\<forall>k. search t' k = (case find (\<lambda>n. key n = k) ns of Some n \<Rightarrow> Some n | None \<Rightarrow> search t k))"
  using assms
proof (induction ns arbitrary: t)
  case Nil
  then show ?case by (simp add: digests_def)
next
  case (Cons n ns)
  let ?t1 = "push t (key n) (val n)"
  have fin: "finite (buckets t \<union> digests (n # ns))"
    by (simp add: buckets_def digests_def)
  have "card (buckets t) \<le> card (buckets t \<union> digests (n # ns))"
    by (rule card_mono [OF fin]) simp
  with Cons.prems(5) have "size_ds t \<noteq> capacity t"
    using size_ds_card [OF wf_distinct [OF Cons.prems(1)]] by simp
  then have step: "insert_fuel (Suc m) t (key n) (val n) = Some (Inr n, ?t1)"
    using Cons.prems(4) nonempty_map_of [OF Cons.prems(2)]
    by (simp add: place_ok)
  have wf1: "wf ?t1" using Cons.prems(1,4) by (simp add: wf_push)
  have ne1: "nonempty ?t1" using Cons.prems(2) by (rule nonempty_push)
  have d1: "distinct (map key ns)" using Cons.prems(3) by simp
  have s1: "\<forall>n' \<in> set ns. search ?t1 (key n') = None"
    using Cons.prems(3,4) by (auto simp: search_push) (metis imageI)
  have b1: "buckets ?t1 \<union> digests ns = buckets t \<union> digests (n # ns)"
    by (simp add: buckets_push digests_Cons)
  have c1: "int (card (buckets ?t1 \<union> digests ns)) < capacity ?t1"
    using Cons.prems(5) by (simp add: b1 capacity_push)
  from Cons.IH [OF wf1 ne1 d1 s1 c1] obtain t' where
    r: "reinsert (Suc m) ?t1 ns = Some (Inr (), t')" and w: "wf t'" and e: "nonempty t'"
    and c: "capacity t' = capacity ?t1" and b: "buckets t' = buckets ?t1 \<union> digests ns"
    and s: "\<forall>k. search t' k = (case find (\<lambda>n. key n = k) ns of Some n \<Rightarrow> Some n | None \<Rightarrow> search ?t1 k)"
    by blast
  have "reinsert (Suc m) t (n # ns) = Some (Inr (), t')"
    using step r by simp
  moreover have "\<forall>k. search t' k =
      (case find (\<lambda>n. key n = k) (n # ns) of Some n \<Rightarrow> Some n | None \<Rightarrow> search t k)"
  proof
    fix k
    show "search t' k = (case find (\<lambda>n. key n = k) (n # ns) of Some n \<Rightarrow> Some n | None \<Rightarrow> search t k)"
    proof (cases "key n = k")
      case True
      then have "find (\<lambda>n. key n = k) ns = None"
        using Cons.prems(3) by (auto simp: find_None_keys)
      with True s show ?thesis by (auto simp: search_push)
    next
      case False
      with s show ?thesis by (simp add: search_push split: option.splits)
    qed
  qed
  ultimately show ?case
    using w e c b b1 by (auto simp: capacity_push)
qed

lemma find_append:
  "find P (xs @ ys) = (case find P xs of None \<Rightarrow> find P ys | Some x \<Rightarrow> Some x)"
  by (induction xs) simp_all

lemma wf_cache_Cons:
  "wf_cache ((d, c) # al) \<longleftrightarrow>
     d \<notin> fst ` set al \<and> distinct (map key c) \<and> (\<forall>n \<in> set c. hash_func (key n) = d) \<and> wf_cache al"
  by (auto simp: wf_cache_def)

lemma wf_cache_hash:
  assumes "wf_cache al" and "n \<in> set (concat (map snd al))"
  shows "hash_func (key n) \<in> fst ` set al"
proof -
  from assms(2) obtain d c where dc: "(d, c) \<in> set al" "n \<in> set c"
    by auto
  with assms(1) have "hash_func (key n) = d"
    unfolding wf_cache_def by blast
  with dc(1) show ?thesis
    by (metis fst_conv imageI)
qed

lemma wf_cache_find:
  "wf_cache al \<Longrightarrow>
     find (\<lambda>n. key n = k) (concat (map snd al)) =
       (case map_of al (hash_func k) of None \<Rightarrow> None | Some c \<Rightarrow> find (\<lambda>n. key n = k) c)"
proof (induction al)
  case Nil
  then show ?case by simp
next
  case (Cons p al)
  obtain d c where p: "p = (d, c)" by (cases p)
  from Cons.prems have w: "d \<notin> fst ` set al" "\<forall>n \<in> set c. hash_func (key n) = d" "wf_cache al"
    by (simp_all add: p wf_cache_Cons)
  show ?case
  proof (cases "hash_func k = d")
    case True
    have "find (\<lambda>n. key n = k) (concat (map snd al)) = None"
      unfolding find_None_iff
    proof
      assume "\<exists>n. n \<in> set (concat (map snd al)) \<and> key n = k"
      then obtain n where "n \<in> set (concat (map snd al))" "key n = k" by blast
      then have "d \<in> fst ` set al"
        using wf_cache_hash [OF w(3), of n] True by simp
      then show False using w(1) by simp
    qed
    then show ?thesis
      using True by (simp add: p find_append split: option.splits)
  next
    case False
    then have "find (\<lambda>n. key n = k) c = None"
      unfolding find_None_iff using w(2) by blast
    then show ?thesis
      using False Cons.IH [OF w(3)] by (simp add: p find_append)
  qed
qed

lemma search_entries: "wf s \<Longrightarrow> search s k = find (\<lambda>n. key n = k) (entries s)"
  by (simp add: wf_def entries_def search_alt wf_cache_find)

lemma wf_cache_distinct: "wf_cache al \<Longrightarrow> distinct (map key (concat (map snd al)))"
proof (induction al)
  case Nil
  then show ?case by simp
next
  case (Cons p al)
  obtain d c where p: "p = (d, c)" by (cases p)
  from Cons.prems have w: "d \<notin> fst ` set al" "distinct (map key c)"
      "\<forall>n \<in> set c. hash_func (key n) = d" "wf_cache al"
    by (simp_all add: p wf_cache_Cons)
  have "key ` set c \<inter> key ` set (concat (map snd al)) = {}"
  proof (rule ccontr)
    assume "key ` set c \<inter> key ` set (concat (map snd al)) \<noteq> {}"
    then obtain n n' where "n \<in> set c" "n' \<in> set (concat (map snd al))" "key n = key n'"
      by auto
    then have "hash_func (key n') = d" "hash_func (key n') \<in> fst ` set al"
      using w(3) wf_cache_hash [OF w(4), of n'] by metis+
    then show False
      using w(1) by simp
  qed
  then show ?case
    using w(2) Cons.IH [OF w(4)] by (simp add: p)
qed

lemma entries_distinct: "wf s \<Longrightarrow> distinct (map key (entries s))"
  by (simp add: wf_def entries_def wf_cache_distinct)

lemma digests_entries:
  assumes "wf s"
  shows "digests (entries s) \<subseteq> buckets s"
proof
  fix d
  assume "d \<in> digests (entries s)"
  then obtain n where "n \<in> set (concat (map snd (cache s)))" "d = hash_func (key n)"
    by (auto simp: digests_def entries_def)
  then show "d \<in> buckets s"
    using wf_cache_hash [of "cache s" n] assms by (simp add: wf_def buckets_def)
qed

lemma find_Some_self: "(case find P xs of None \<Rightarrow> None | Some n \<Rightarrow> Some n) = find P xs"
  by (simp split: option.splits)

text \<open>
  The growth step of \<open>insert\<close> on a full table: one level of calls suffices, the table
  keeps its nodes and loses its empty buckets.
\<close>

lemma regrow:
  assumes "wf s" and "size_ds s = capacity s" and "0 < capacity s"
  shows "\<exists>s'. resize_fuel (Suc m) s (grown (capacity s)) = Some (Inr (), s') \<and> wf s' \<and> nonempty s'
           \<and> capacity s' = grown (capacity s) \<and> buckets s' = digests (entries s)
           \<and> (\<forall>k. search s' k = search s k)"
proof -
  let ?t = "s\<lparr>capacity := grown (capacity s), cache := []\<rparr>"
  have g: "capacity s < grown (capacity s)" using assms(3) by (rule grown_gt)
  have "card (digests (entries s)) \<le> card (buckets s)"
    by (rule card_mono) (simp add: buckets_def, rule digests_entries [OF assms(1)])
  then have c: "int (card (buckets ?t \<union> digests (entries s))) < capacity ?t"
    using g assms(2) size_ds_card [OF wf_distinct [OF assms(1)]] by (simp add: buckets_def)
  have "wf ?t" "nonempty ?t" "\<forall>n \<in> set (entries s). search ?t (key n) = None"
    by (simp_all add: wf_def wf_cache_def nonempty_def search_alt)
  from reinsert_no_growth [OF this(1,2) entries_distinct [OF assms(1)] this(3) c, of m]
  obtain t' where "reinsert (Suc m) ?t (entries s) = Some (Inr (), t')" "wf t'" "nonempty t'"
    "capacity t' = capacity ?t" "buckets t' = buckets ?t \<union> digests (entries s)"
    "\<forall>k. search t' k = (case find (\<lambda>n. key n = k) (entries s) of Some n \<Rightarrow> Some n | None \<Rightarrow> search ?t k)"
    by blast
  then show ?thesis
    using g assms(3) search_entries [OF assms(1)]
    by (auto simp: entries_def buckets_def search_alt [of ?t] split: option.splits)
qed

text \<open>\<open>insert\<close> of a new key into a full table: it grows, then places the node.\<close>

lemma insert_grow:
  assumes "wf s" and "size_ds s = capacity s" and "0 < capacity s" and "search s k = None"
  shows "\<exists>s'. insert_fuel (Suc (Suc m)) s k v = Some (Inr (Node k v), s') \<and> wf s' \<and> nonempty s'
           \<and> capacity s' = grown (capacity s)
           \<and> (\<forall>k'. search s' k' = (if k' = k then Some (Node k v) else search s k'))"
proof -
  from regrow [OF assms(1-3), of m] obtain t where
    r: "resize_fuel (Suc m) s (grown (capacity s)) = Some (Inr (), t)" and w: "wf t"
    and e: "nonempty t" and c: "capacity t = grown (capacity s)"
    and f: "\<forall>k. search t k = search s k"
    by blast
  have n: "search t k = None" using f assms(4) by simp
  have p: "place t k v = (Inr (Node k v), push t k v)"
    using nonempty_map_of [OF e] n by (rule place_ok)
  have "insert_fuel (Suc (Suc m)) s k v = Some (Inr (Node k v), push t k v)"
    using assms(2) r p by (simp del: resize_fuel.simps)
  then show ?thesis
    using wf_push [OF w n] nonempty_push [OF e] c f
    by (simp add: capacity_push search_push)
qed

lemma insert_ok:
  assumes "wf t" and "nonempty t" and "0 < capacity t" and "search t k = None"
  shows "\<exists>t'. insert_fuel (Suc (Suc m)) t k v = Some (Inr (Node k v), t') \<and> wf t' \<and> nonempty t'
           \<and> capacity t \<le> capacity t'
           \<and> (\<forall>k'. search t' k' = (if k' = k then Some (Node k v) else search t k'))"
proof (cases "size_ds t = capacity t")
  case True
  from insert_grow [OF assms(1) True assms(3,4), of m v] grown_gt [OF assms(3)]
  show ?thesis by force
next
  case False
  have "place t k v = (Inr (Node k v), push t k v)"
    using nonempty_map_of [OF assms(2)] assms(4) by (rule place_ok)
  then have "insert_fuel (Suc (Suc m)) t k v = Some (Inr (Node k v), push t k v)"
    using False by simp
  then show ?thesis
    using wf_push [OF assms(1,4)] nonempty_push [OF assms(2)]
    by (simp add: capacity_push search_push)
qed

lemma reinsert_ok:
  assumes "wf t" and "nonempty t" and "0 < capacity t" and "distinct (map key ns)"
    and "\<forall>n \<in> set ns. search t (key n) = None"
  shows "\<exists>t'. reinsert (Suc (Suc m)) t ns = Some (Inr (), t') \<and> wf t' \<and> nonempty t'
           \<and> capacity t \<le> capacity t'
           \<and> (\<forall>k. search t' k = (case find (\<lambda>n. key n = k) ns of Some n \<Rightarrow> Some n | None \<Rightarrow> search t k))"
  using assms
proof (induction ns arbitrary: t)
  case Nil
  then show ?case by simp
next
  case (Cons n ns)
  have "search t (key n) = None" using Cons.prems(5) by simp
  from insert_ok [OF Cons.prems(1-3) this, of m "val n"] obtain t1 where
    i: "insert_fuel (Suc (Suc m)) t (key n) (val n) = Some (Inr n, t1)" and w: "wf t1"
    and e: "nonempty t1" and c: "capacity t \<le> capacity t1"
    and f: "\<forall>k'. search t1 k' = (if k' = key n then Some n else search t k')"
    by auto
  have c1: "0 < capacity t1" using c Cons.prems(3) by simp
  have d1: "distinct (map key ns)" using Cons.prems(4) by simp
  have s1: "\<forall>n' \<in> set ns. search t1 (key n') = None"
  proof
    fix n' assume n': "n' \<in> set ns"
    then have "key n' \<noteq> key n" using Cons.prems(4) by (auto, metis imageI)
    then show "search t1 (key n') = None" using f n' Cons.prems(5) by simp
  qed
  from Cons.IH [OF w e c1 d1 s1] obtain t' where
    r: "reinsert (Suc (Suc m)) t1 ns = Some (Inr (), t')" and w': "wf t'" and e': "nonempty t'"
    and c': "capacity t1 \<le> capacity t'"
    and f': "\<forall>k. search t' k = (case find (\<lambda>n. key n = k) ns of Some n \<Rightarrow> Some n | None \<Rightarrow> search t1 k)"
    by blast
  have "reinsert (Suc (Suc m)) t (n # ns) = Some (Inr (), t')"
    using i r by (simp del: insert_fuel.simps)
  moreover have "\<forall>k. search t' k =
      (case find (\<lambda>n. key n = k) (n # ns) of Some n \<Rightarrow> Some n | None \<Rightarrow> search t k)"
  proof
    fix k
    show "search t' k = (case find (\<lambda>n. key n = k) (n # ns) of Some n \<Rightarrow> Some n | None \<Rightarrow> search t k)"
    proof (cases "key n = k")
      case True
      then have "find (\<lambda>n. key n = k) ns = None"
        using Cons.prems(4) by (auto simp: find_None_keys)
      with True f f' show ?thesis by simp
    next
      case False
      with f f' show ?thesis by (simp split: option.splits)
    qed
  qed
  ultimately show ?case
    using w' e' c c' by auto
qed

text \<open>\<open>resize\<close> to a positive capacity, whatever the table holds.\<close>

lemma resize_ok:
  assumes "wf s" and "0 < n"
  shows "\<exists>s'. resize_fuel (Suc (Suc m)) s n = Some (Inr (), s') \<and> wf s' \<and> nonempty s'
           \<and> n \<le> capacity s' \<and> (\<forall>k. search s' k = search s k)"
proof -
  let ?t = "s\<lparr>capacity := n, cache := []\<rparr>"
  have "wf ?t" "nonempty ?t" "0 < capacity ?t" "\<forall>n \<in> set (entries s). search ?t (key n) = None"
    using assms(2) by (simp_all add: wf_def wf_cache_def nonempty_def search_alt)
  from reinsert_ok [OF this(1-3) entries_distinct [OF assms(1)] this(4), of m]
  obtain t' where "reinsert (Suc (Suc m)) ?t (entries s) = Some (Inr (), t')" "wf t'" "nonempty t'"
    "capacity ?t \<le> capacity t'"
    "\<forall>k. search t' k = (case find (\<lambda>n. key n = k) (entries s) of Some n \<Rightarrow> Some n | None \<Rightarrow> search ?t k)"
    by blast
  then show ?thesis
    using assms(2) search_entries [OF assms(1)]
    by (auto simp: entries_def search_alt [of ?t] split: option.splits)
qed

lemma resize_exact:
  assumes "wf s" and "0 < n" and "size_ds s < n"
  shows "\<exists>s'. resize_fuel (Suc m) s n = Some (Inr (), s') \<and> capacity s' = n"
proof -
  let ?t = "s\<lparr>capacity := n, cache := []\<rparr>"
  have "card (digests (entries s)) \<le> card (buckets s)"
    by (rule card_mono) (simp add: buckets_def, rule digests_entries [OF assms(1)])
  then have c: "int (card (buckets ?t \<union> digests (entries s))) < capacity ?t"
    using assms(3) size_ds_card [OF wf_distinct [OF assms(1)]] by (simp add: buckets_def)
  have "wf ?t" "nonempty ?t" "\<forall>n \<in> set (entries s). search ?t (key n) = None"
    by (simp_all add: wf_def wf_cache_def nonempty_def search_alt)
  from reinsert_no_growth [OF this(1,2) entries_distinct [OF assms(1)] this(3) c, of m]
  obtain t' where "reinsert (Suc m) ?t (entries s) = Some (Inr (), t')" "capacity t' = capacity ?t"
    by blast
  then show ?thesis
    using assms(2) by (simp add: entries_def)
qed

text \<open>A property kept by \<open>place\<close> and by emptying the table is kept by \<open>insert\<close> and \<open>resize\<close>.\<close>

lemma reinsert_preserves:
  assumes "\<And>s k v r s'. P s \<Longrightarrow> insert_fuel n s k v = Some (r, s') \<Longrightarrow> P s'"
  shows "P s \<Longrightarrow> reinsert n s ns = Some (u, s') \<Longrightarrow> P s'"
proof (induction ns arbitrary: s)
  case Nil
  then show ?case by simp
next
  case (Cons a ns)
  from Cons.prems(2) obtain r t where i: "insert_fuel n s (key a) (val a) = Some (r, t)"
    by (auto simp del: insert_fuel.simps split: option.splits)
  have t: "P t" using assms [OF Cons.prems(1) i] .
  show ?case
  proof (cases r)
    case (Inl e)
    with i Cons.prems(2) t show ?thesis by (simp del: insert_fuel.simps)
  next
    case (Inr x)
    with i Cons.prems(2) have "reinsert n t ns = Some (u, s')" by (simp del: insert_fuel.simps)
    with t show ?thesis by (rule Cons.IH)
  qed
qed

lemma insert_fuel_preserves:
  assumes pl: "\<And>s k v r s'. P s \<Longrightarrow> place s k v = (r, s') \<Longrightarrow> P s'"
    and rs: "\<And>s c. P s \<Longrightarrow> 0 < c \<Longrightarrow> P (s\<lparr>capacity := c, cache := []\<rparr>)"
  shows "P s \<Longrightarrow> insert_fuel n s k v = Some (r, s') \<Longrightarrow> P s'"
proof (induction n arbitrary: s k v r s')
  case 0
  then show ?case by simp
next
  case (Suc n)
  show ?case
  proof (cases "size_ds s = capacity s")
    case False
    with Suc.prems(2) have "place s k v = (r, s')" by simp
    with Suc.prems(1) show ?thesis by (rule pl)
  next
    case True
    show ?thesis
    proof (cases "grown (capacity s) \<le> 0")
      case le: True
      with True Suc.prems show ?thesis by simp
    next
      case gt: False
      let ?t = "s\<lparr>capacity := grown (capacity s), cache := []\<rparr>"
      have t: "P ?t" using Suc.prems(1) gt by (simp add: rs)
      from True gt Suc.prems(2) obtain u t' where
        re: "reinsert n ?t (concat (map snd (cache s))) = Some (u, t')"
        by (auto split: option.splits)
      have t': "P t'" using reinsert_preserves [of P n, OF Suc.IH t re] .
      show ?thesis
      proof (cases u)
        case (Inl e)
        with True gt re Suc.prems(2) t' show ?thesis by simp
      next
        case (Inr x)
        with True gt re Suc.prems(2) have "place t' k v = (r, s')" by simp
        with t' show ?thesis by (rule pl)
      qed
    qed
  qed
qed

lemma resize_fuel_preserves:
  assumes pl: "\<And>s k v r s'. P s \<Longrightarrow> place s k v = (r, s') \<Longrightarrow> P s'"
    and rs: "\<And>s c. P s \<Longrightarrow> 0 < c \<Longrightarrow> P (s\<lparr>capacity := c, cache := []\<rparr>)"
  shows "P s \<Longrightarrow> resize_fuel n s c = Some (u, s') \<Longrightarrow> P s'"
proof (cases "c \<le> 0")
  case True
  assume "P s" "resize_fuel n s c = Some (u, s')"
  with True show ?thesis by simp
next
  case False
  assume p: "P s" and r: "resize_fuel n s c = Some (u, s')"
  have t: "P (s\<lparr>capacity := c, cache := []\<rparr>)" using p False by (simp add: rs)
  from r False have "reinsert n (s\<lparr>capacity := c, cache := []\<rparr>) (concat (map snd (cache s))) = Some (u, s')"
    by simp
  moreover have "\<And>s k v r s'. P s \<Longrightarrow> insert_fuel n s k v = Some (r, s') \<Longrightarrow> P s'"
    by (rule insert_fuel_preserves [of P, OF pl rs])
  ultimately show ?thesis
    using t reinsert_preserves [of P n] by blast
qed

lemma place_cases:
  "place s k v = (r, s') \<Longrightarrow>
     (s' = s \<and> (\<exists>e. r = Inl e)) \<or> (search s k = None \<and> r = Inr (Node k v) \<and> s' = push s k v)"
  by (auto simp: place_def push_def search_alt Let_def split: option.splits list.splits if_splits)

lemma wf_place: "wf s \<Longrightarrow> place s k v = (r, s') \<Longrightarrow> wf s'"
  by (auto dest!: place_cases simp: wf_push)

lemma wf_reset: "wf (s\<lparr>capacity := c, cache := []\<rparr>)"
  by (simp add: wf_def wf_cache_def)

lemma wf_insert_fuel: "wf s \<Longrightarrow> insert_fuel n s k v = Some (r, s') \<Longrightarrow> wf s'"
  by (rule insert_fuel_preserves [of wf]) (auto intro: wf_place wf_reset)

lemma wf_resize_fuel: "wf s \<Longrightarrow> resize_fuel n s c = Some (u, s') \<Longrightarrow> wf s'"
  by (rule resize_fuel_preserves [of wf]) (auto intro: wf_place wf_reset)

lemma set_value_keys:
  "set_value chain k v = Some (node, chain') \<Longrightarrow> map key chain' = map key chain \<and> node = Node k v"
  by (induction chain arbitrary: chain') (auto split: if_splits)

lemma unlink_set: "unlink chain k = Some chain' \<Longrightarrow> set chain' \<subseteq> set chain"
  by (induction chain arbitrary: chain') (auto split: if_splits)

lemma unlink_distinct:
  "unlink chain k = Some chain' \<Longrightarrow> distinct (map key chain) \<Longrightarrow> distinct (map key chain')"
proof (induction chain arbitrary: chain')
  case Nil
  then show ?case by simp
next
  case (Cons n ns)
  show ?case
  proof (cases "key n = k")
    case True
    with Cons.prems show ?thesis by simp
  next
    case False
    with Cons.prems(1) obtain z where z: "unlink ns k = Some z" "chain' = n # z"
      by auto
    have "distinct (map key z)" using Cons.IH [OF z(1)] Cons.prems(2) by simp
    moreover have "key n \<notin> key ` set z"
      using unlink_set [OF z(1)] Cons.prems(2) by auto
    ultimately show ?thesis using z(2) by simp
  qed
qed

lemma unlink_sub:
  "unlink chain k = Some chain' \<Longrightarrow> distinct (map key chain) \<Longrightarrow>
     distinct (map key chain') \<and> set chain' \<subseteq> set chain"
  by (simp add: unlink_set unlink_distinct)

lemma wf_store:
  assumes "wf s" and "map_of (cache s) d = Some chain" and "distinct (map key chain')"
    and "key ` set chain' \<subseteq> key ` set chain"
  shows "wf (s\<lparr>cache := AList.update d chain' (cache s)\<rparr>)"
  unfolding wf_def
proof (simp, rule wf_cacheI)
  show "distinct (map fst (AList.update d chain' (cache s)))"
    using wf_distinct [OF assms(1)] by (rule distinct_update)
next
  fix d' c
  assume m: "map_of (AList.update d chain' (cache s)) d' = Some c"
  show "distinct (map key c) \<and> (\<forall>n \<in> set c. hash_func (key n) = d')"
  proof (cases "d' = d")
    case True
    with m have c: "c = chain'" by (simp add: update_conv')
    have "\<forall>n \<in> set chain. hash_func (key n) = d"
      using wf_chain [OF assms(1,2)] by simp
    then have "\<forall>n \<in> set chain'. hash_func (key n) = d"
      using assms(4) by (metis imageE imageI subsetD)
    then show ?thesis using c True assms(3) by simp
  next
    case False
    with m have "map_of (cache s) d' = Some c" by (simp add: update_conv')
    then show ?thesis by (rule wf_chain [OF assms(1)])
  qed
qed

lemma wf_update: "wf s \<Longrightarrow> update s k v = (r, s') \<Longrightarrow> wf s'"
proof -
  assume w: "wf s" and u: "update s k v = (r, s')"
  show ?thesis
  proof (cases "map_of (cache s) (hash_func k)")
    case None
    with u w show ?thesis by (simp add: update_def)
  next
    case (Some chain)
    show ?thesis
    proof (cases "set_value chain k v")
      case None
      with Some u w show ?thesis by (simp add: update_def)
    next
      case (Some p)
      obtain node chain' where p: "p = (node, chain')" by (cases p)
      from set_value_keys [OF Some [unfolded p]] have ks: "map key chain' = map key chain" by simp
      then have "distinct (map key chain')" "key ` set chain' \<subseteq> key ` set chain"
        using wf_chain [OF w \<open>map_of (cache s) (hash_func k) = Some chain\<close>]
        by (simp, metis list.set_map subset_refl)
      from wf_store [OF w \<open>map_of (cache s) (hash_func k) = Some chain\<close> this]
      show ?thesis
        using u Some p \<open>map_of (cache s) (hash_func k) = Some chain\<close> by (auto simp: update_def)
    qed
  qed
qed

lemma wf_delete: "wf s \<Longrightarrow> delete s k = (u, s') \<Longrightarrow> wf s'"
proof -
  assume w: "wf s" and u: "delete s k = (u, s')"
  show ?thesis
  proof (cases "map_of (cache s) (hash_func k)")
    case None
    with u w show ?thesis by (simp add: delete_def)
  next
    case (Some chain)
    note m = this
    show ?thesis
    proof (cases "unlink chain k")
      case None
      with m u w show ?thesis by (simp add: delete_def)
    next
      case (Some chain')
      from unlink_sub [OF Some] wf_chain [OF w m]
      have "distinct (map key chain')" "key ` set chain' \<subseteq> key ` set chain" by auto
      from wf_store [OF w m this] show ?thesis
        using u Some m by (auto simp: delete_def)
    qed
  qed
qed

lemma wf_init: "wf (init c)"
  by (simp add: init_def wf_def wf_cache_def)

lemma reachable_wf: "reachable s \<Longrightarrow> wf s"
proof (induction rule: reachable.induct)
  case (r_init c)
  show ?case by (rule wf_init)
next
  case (r_insert s n k v r s')
  then show ?case by (auto intro: wf_insert_fuel)
next
  case (r_resize s n c u s')
  then show ?case by (auto intro: wf_resize_fuel)
next
  case (r_update s k v r s')
  then show ?case by (auto intro: wf_update)
next
  case (r_delete s k u s')
  then show ?case by (auto intro: wf_delete)
qed

text \<open>More fuel never changes a result.\<close>

lemma reinsert_mono_aux:
  assumes "\<And>(s::'v DataStore) k v r. insert_fuel n s k v = Some r \<Longrightarrow> insert_fuel n' s k v = Some r"
  shows "reinsert n (s::'v DataStore) ns = Some u \<Longrightarrow> reinsert n' s ns = Some u"
proof (induction ns arbitrary: s)
  case Nil
  then show ?case by simp
next
  case (Cons a ns)
  from Cons.prems obtain r t where i: "insert_fuel n s (key a) (val a) = Some (r, t)"
    by (auto simp del: insert_fuel.simps split: option.splits)
  then have i': "insert_fuel n' s (key a) (val a) = Some (r, t)" by (rule assms)
  show ?case
  proof (cases r)
    case (Inl e)
    with i i' Cons.prems show ?thesis by (simp del: insert_fuel.simps)
  next
    case (Inr x)
    with i Cons.prems have "reinsert n t ns = Some u" by (simp del: insert_fuel.simps)
    then have "reinsert n' t ns = Some u" by (rule Cons.IH)
    with i' Inr show ?thesis by (simp del: insert_fuel.simps)
  qed
qed

lemma insert_fuel_Suc: "insert_fuel n s k v = Some r \<Longrightarrow> insert_fuel (Suc n) s k v = Some r"
proof (induction n arbitrary: s k v r)
  case 0
  then show ?case by simp
next
  case (Suc n)
  show ?case
  proof (cases "size_ds s = capacity s \<and> 0 < grown (capacity s)")
    case False
    with Suc.prems show ?thesis by auto
  next
    case True
    let ?t = "s\<lparr>capacity := grown (capacity s), cache := []\<rparr>"
    from True Suc.prems obtain u where
      re: "reinsert n ?t (concat (map snd (cache s))) = Some u"
      by (auto split: option.splits)
    have "reinsert (Suc n) ?t (concat (map snd (cache s))) = Some u"
    proof (rule reinsert_mono_aux [where n = n])
      show "reinsert n ?t (concat (map snd (cache s))) = Some u" by (rule re)
    next
      fix s' :: "'a DataStore" and k' v' r'
      assume "insert_fuel n s' k' v' = Some r'"
      then show "insert_fuel (Suc n) s' k' v' = Some r'" by (rule Suc.IH)
    qed
    with re True Suc.prems show ?thesis
      by (simp del: reinsert.simps)
  qed
qed

lemma insert_fuel_add: "insert_fuel n s k v = Some r \<Longrightarrow> insert_fuel (n + j) s k v = Some r"
  by (induction j) (simp_all add: insert_fuel_Suc del: insert_fuel.simps)

lemma insert_fuel_mono:
  "insert_fuel n s k v = Some r \<Longrightarrow> n \<le> n' \<Longrightarrow> insert_fuel n' s k v = Some r"
  using insert_fuel_add [of n s k v r "n' - n"] by simp

lemma resize_fuel_mono:
  "resize_fuel n (s::'v DataStore) c = Some u \<Longrightarrow> n \<le> n' \<Longrightarrow> resize_fuel n' s c = Some u"
proof (cases "c \<le> 0")
  case True
  assume "resize_fuel n s c = Some u"
  with True show ?thesis by simp
next
  case False
  assume r: "resize_fuel n s c = Some u" and le: "n \<le> n'"
  have "\<And>(s::'v DataStore) k v r. insert_fuel n s k v = Some r \<Longrightarrow> insert_fuel n' s k v = Some r"
    using le by (rule insert_fuel_mono [rotated])
  from reinsert_mono_aux [of n n', OF this] r False show ?thesis by simp
qed

text \<open>What a successful \<open>insert\<close> leaves behind.\<close>

lemma insert_fuel_place:
  "insert_fuel n s k v = Some (Inr nd, s') \<Longrightarrow> \<exists>t. place t k v = (Inr nd, s')"
proof (cases n)
  case 0
  assume "insert_fuel n s k v = Some (Inr nd, s')"
  with 0 show ?thesis by simp
next
  case (Suc m)
  assume "insert_fuel n s k v = Some (Inr nd, s')"
  with Suc show ?thesis
    by (auto simp del: resize_fuel.simps split: if_splits option.splits sum.splits)
qed

lemma insert_fuel_success:
  assumes "insert_fuel n s k v = Some (Inr nd, s')"
  shows "nd = Node k v \<and> search s' k = Some (Node k v) \<and> contains s' (hash_func k)"
proof -
  from insert_fuel_place [OF assms] obtain t where "place t k v = (Inr nd, s')" by blast
  from place_cases [OF this] have "nd = Node k v" "s' = push t k v" by auto
  moreover have "search (push t k v) k = Some (Node k v)"
    by (simp add: search_push)
  moreover have "contains (push t k v) (hash_func k)"
    by (simp add: contains_def push_def update_conv')
  ultimately show ?thesis by simp
qed

lemma place_dup: "search s k \<noteq> None \<Longrightarrow> place s k v = (Inl DuplicateKeyError, s)"
  by (auto simp: place_def search_alt Let_def split: option.splits list.splits)

lemma capacity_place: "place s k v = (r, s') \<Longrightarrow> capacity s' = capacity s"
  by (auto dest!: place_cases simp: capacity_push)

lemma capacity_positive_insert:
  "0 < capacity s \<Longrightarrow> insert_fuel n s k v = Some (r, s') \<Longrightarrow> 0 < capacity s'"
  by (rule insert_fuel_preserves [of "\<lambda>s. 0 < capacity s"]) (auto dest: capacity_place)

lemma capacity_positive_resize:
  "0 < capacity s \<Longrightarrow> resize_fuel n s c = Some (u, s') \<Longrightarrow> 0 < capacity s'"
  by (rule resize_fuel_preserves [of "\<lambda>s. 0 < capacity s"]) (auto dest: capacity_place)

lemma resize_invalid: "c \<le> 0 \<Longrightarrow> resize_fuel n s c = Some (Inl InvalidCapacityError, s)"
  by simp

lemma set_value_find:
  "set_value chain k v = Some (nd, chain') \<Longrightarrow>
     find (\<lambda>n. key n = k') chain' = (if k' = k then Some (Node k v) else find (\<lambda>n. key n = k') chain)"
  by (induction chain arbitrary: chain') (auto split: if_splits)

lemma update_same_keys:
  "map_of al d = Some c \<Longrightarrow> map key c' = map key c \<Longrightarrow>
     map (\<lambda>(d, c). (d, map key c)) (AList.update d c' al) = map (\<lambda>(d, c). (d, map key c)) al"
  by (induction al) (auto split: if_splits)

lemma length_update_present: "map_of al d = Some c \<Longrightarrow> length (AList.update d c' al) = length al"
  by (induction al) (auto split: if_splits)

lemmas run_simps =
  init_def size_ds_def place_def push_def contains_def search_def delete_def update_def
  grown_int Let_def

lemma hash_func_not_a: "hash_func ''a'' \<noteq> ''a''"
  using hash_func_length [of "''a''"] by auto

section \<open>The claims\<close>

text \<open>
  C1, as stated, fails: \<open>contains\<close> (lines 65-66) is \<open>key in self.cache\<close>, a test of its
  argument against the dict's keys, which are digests. After \<open>insert("a", 1)\<close> into a new
  table the bucket of \<open>hash("a")\<close> exists and \<open>contains("a")\<close> is false, since a digest
  has 64 characters.
\<close>

theorem contains_key_counterexample:
  "insert_fuel (Suc 0) (init 10) ''a'' (1::int)
     = Some (Inr (Node ''a'' 1), \<lparr>cache = [(hash_func ''a'', [Node ''a'' 1])], capacity = 10\<rparr>)
   \<and> map_of (cache \<lparr>cache = [(hash_func ''a'', [Node ''a'' (1::int)])], capacity = 10\<rparr>) (hash_func ''a'') \<noteq> None
   \<and> \<not> contains \<lparr>cache = [(hash_func ''a'', [Node ''a'' (1::int)])], capacity = 10\<rparr> ''a''"
  using hash_func_not_a by (simp add: run_simps)

text \<open>
  C1, amended: \<open>contains(x)\<close> is true exactly when the table has a bucket stored under
  \<open>x\<close> itself; \<open>insert\<close> and \<open>search\<close> call it with the digest, and after a successful
  \<open>insert(k, v)\<close> it is \<open>contains(hash(k))\<close> that is true.
\<close>

theorem contains_tests_its_argument:
  "(contains s x \<longleftrightarrow> x \<in> fst ` set (cache s))
   \<and> (insert_fuel n s k v = Some (Inr nd, s') \<longrightarrow> contains s' (hash_func k))"
  by (auto simp: contains_def map_of_eq_None_iff dest: insert_fuel_success)

theorem contains_tests_its_argument_witness:
  "insert_fuel (Suc 0) (init 10) ''a'' (1::int)
     = Some (Inr (Node ''a'' 1), \<lparr>cache = [(hash_func ''a'', [Node ''a'' 1])], capacity = 10\<rparr>)
   \<and> contains \<lparr>cache = [(hash_func ''a'', [Node ''a'' (1::int)])], capacity = 10\<rparr> (hash_func ''a'')"
proof -
  have i: "insert_fuel (Suc 0) (init 10) ''a'' (1::int)
     = Some (Inr (Node ''a'' 1), \<lparr>cache = [(hash_func ''a'', [Node ''a'' 1])], capacity = 10\<rparr>)"
    by (simp add: run_simps)
  with contains_tests_its_argument [where n = "Suc 0" and s = "init 10" and k = "''a''" and v = 1
      and nd = "Node ''a'' 1"
      and s' = "\<lparr>cache = [(hash_func ''a'', [Node ''a'' (1::int)])], capacity = 10\<rparr>"]
  show ?thesis by blast
qed

text \<open>
  C2: \<open>insert\<close> of a key whose bucket was emptied by \<open>delete\<close> does not succeed. \<open>delete\<close>
  of the only node stores \<open>None\<close> in the bucket (line 146); the next \<open>insert\<close> finds the
  bucket, reads it into \<open>cur_node\<close> and evaluates \<open>print(cur_node.key)\<close> (line 93) on
  \<open>None\<close>, which raises \<open>AttributeError\<close> before the loop that was written for this very
  case (\<open>while cur_node:\<close>, line 94). With any amount of fuel:
\<close>

theorem insert_after_delete_raises:
  "insert_fuel (Suc 0) (init 10) ''x'' (10::int)
     = Some (Inr (Node ''x'' 10), \<lparr>cache = [(hash_func ''x'', [Node ''x'' 10])], capacity = 10\<rparr>)
   \<and> delete \<lparr>cache = [(hash_func ''x'', [Node ''x'' (10::int)])], capacity = 10\<rparr> ''x''
     = (Inr (), \<lparr>cache = [(hash_func ''x'', [])], capacity = 10\<rparr>)
   \<and> search \<lparr>cache = [(hash_func ''x'', [])], capacity = 10\<rparr> ''x'' = (None :: int Node option)
   \<and> insert_fuel (Suc n) \<lparr>cache = [(hash_func ''x'', [])], capacity = 10\<rparr> ''x'' (11::int)
     = Some (Inl AttributeError, \<lparr>cache = [(hash_func ''x'', [])], capacity = 10\<rparr>)"
  by (simp add: run_simps)

text \<open>
  C3. On a key whose digest has no bucket, \<open>update\<close> and \<open>delete\<close> do fail, but not with
  the error of lines 132 and 152: the guard \<open>self.cache[hash_key] is not None\<close> (lines 124
  and 138) subscripts the dict, so Python's own \<open>KeyError\<close> is raised before the guard
  is evaluated. Here on a new table of capacity 10 and the key \<open>a\<close>.
\<close>

theorem update_delete_missing_bucket_KeyError:
  "update (init 10) ''a'' (v::'v) = (Inl (KeyError (hash_func ''a'')), init 10)
   \<and> delete (init 10 :: 'v DataStore) ''a'' = (Inl (KeyError (hash_func ''a'')), init 10)"
  by (simp add: update_def delete_def init_def)

text \<open>
  C4, as stated, fails in its second half: \<open>insert\<close> grows a full table (lines 88-89)
  before it looks for the key (lines 91-96). In a table of capacity 1 that holds \<open>a\<close>, the
  second \<open>insert("a", 2)\<close> raises the duplicate-key error and leaves the capacity at 2.
\<close>

theorem duplicate_insert_counterexample:
  "insert_fuel (Suc 0) (init 1) ''a'' (1::int)
     = Some (Inr (Node ''a'' 1), \<lparr>cache = [(hash_func ''a'', [Node ''a'' 1])], capacity = 1\<rparr>)
   \<and> insert_fuel (Suc (Suc 0)) \<lparr>cache = [(hash_func ''a'', [Node ''a'' 1])], capacity = 1\<rparr> ''a'' (2::int)
     = Some (Inl DuplicateKeyError, \<lparr>cache = [(hash_func ''a'', [Node ''a'' 1])], capacity = 2\<rparr>)"
  by (simp add: run_simps)

text \<open>
  C4, amended: after a successful \<open>insert(k, v1)\<close> into a reachable table, \<open>insert(k, v2)\<close>
  fails with the duplicate-key error. The failed call leaves the table unchanged when the
  table is not full (\<open>size \<noteq> capacity\<close>); on a full table it has grown the capacity to
  \<open>ceil(capacity * 1.5)\<close> first, and every \<open>search\<close> still returns what it returned before.
\<close>

theorem duplicate_insert_fails:
  assumes "reachable s" and "insert_fuel n s k v1 = Some (Inr nd, s1)"
  shows "\<exists>s2. insert_fuel (Suc (Suc m)) s1 k v2 = Some (Inl DuplicateKeyError, s2)
           \<and> (size_ds s1 \<noteq> capacity s1 \<longrightarrow> s2 = s1)
           \<and> (size_ds s1 = capacity s1 \<longrightarrow> capacity s2 = grown (capacity s1))
           \<and> (\<forall>k'. search s2 k' = search s1 k')"
proof -
  have w: "wf s1"
    using reachable_wf [OF assms(1)] assms(2) by (rule wf_insert_fuel)
  have f: "search s1 k = Some (Node k v1)"
    using insert_fuel_success [OF assms(2)] by simp
  show ?thesis
  proof (cases "size_ds s1 = capacity s1")
    case False
    then have "insert_fuel (Suc (Suc m)) s1 k v2 = Some (Inl DuplicateKeyError, s1)"
      using f by (simp add: place_dup)
    with False show ?thesis by simp
  next
    case True
    have "cache s1 \<noteq> []"
      using f by (auto simp: search_alt)
    then have "0 < length (cache s1)" by simp
    then have pos: "0 < capacity s1"
      using True by (simp add: size_ds_def del: length_greater_0_conv)
    from regrow [OF w True pos, of m] obtain t where
      r: "resize_fuel (Suc m) s1 (grown (capacity s1)) = Some (Inr (), t)"
      and c: "capacity t = grown (capacity s1)" and e: "\<forall>k. search t k = search s1 k"
      by blast
    have "place t k v2 = (Inl DuplicateKeyError, t)"
      using e f by (simp add: place_dup)
    then have "insert_fuel (Suc (Suc m)) s1 k v2 = Some (Inl DuplicateKeyError, t)"
      using True r by (simp del: resize_fuel.simps)
    with True c e show ?thesis by simp
  qed
qed

theorem duplicate_insert_fails_witness:
  "insert_fuel (Suc (Suc 0)) \<lparr>cache = [(hash_func ''a'', [Node ''a'' (1::int)])], capacity = 10\<rparr> ''a'' 2
     = Some (Inl DuplicateKeyError, \<lparr>cache = [(hash_func ''a'', [Node ''a'' 1])], capacity = 10\<rparr>)"
proof -
  let ?s1 = "\<lparr>cache = [(hash_func ''a'', [Node ''a'' (1::int)])], capacity = 10\<rparr>"
  have i: "insert_fuel (Suc 0) (init 10) ''a'' (1::int) = Some (Inr (Node ''a'' 1), ?s1)"
    by (simp add: run_simps)
  have n: "size_ds ?s1 \<noteq> capacity ?s1"
    by (simp add: size_ds_def)
  from duplicate_insert_fails [OF r_init i, of 0 2] n show ?thesis
    by auto
qed

text \<open>
  C5, as stated, fails: \<open>delete\<close> of the only node of a chain stores the node's \<open>next\<close>,
  which is \<open>None\<close>, under the digest (line 146) and never removes the entry. After
  \<open>insert("a", 1)\<close> and \<open>delete("a")\<close> the bucket is still there, and the size is still 1.
\<close>

theorem delete_sole_node_counterexample:
  "insert_fuel (Suc 0) (init 10) ''a'' (1::int)
     = Some (Inr (Node ''a'' 1), \<lparr>cache = [(hash_func ''a'', [Node ''a'' 1])], capacity = 10\<rparr>)
   \<and> delete \<lparr>cache = [(hash_func ''a'', [Node ''a'' (1::int)])], capacity = 10\<rparr> ''a''
     = (Inr (), \<lparr>cache = [(hash_func ''a'', [])], capacity = 10\<rparr>)
   \<and> map_of (cache \<lparr>cache = [(hash_func ''a'', [] :: int Node list)], capacity = 10\<rparr>) (hash_func ''a'') = Some []
   \<and> size_ds \<lparr>cache = [(hash_func ''a'', [Node ''a'' (1::int)])], capacity = 10\<rparr> = 1
   \<and> size_ds \<lparr>cache = [(hash_func ''a'', [] :: int Node list)], capacity = 10\<rparr> = 1"
  by (simp add: run_simps)

text \<open>
  C5, amended: for every key \<open>k\<close> that is the sole node of its bucket's chain, \<open>delete(k)\<close>
  succeeds and leaves the bucket entry in the table, holding \<open>None\<close>: a bucket still exists
  under \<open>hash(k)\<close>, the size and the capacity are unchanged, and \<open>search(k)\<close> returns
  \<open>None\<close>.
\<close>

theorem delete_sole_node_keeps_bucket:
  assumes "map_of (cache s) (hash_func k) = Some [n]" and "key n = k"
  shows "\<exists>s'. delete s k = (Inr (), s') \<and> map_of (cache s') (hash_func k) = Some []
           \<and> contains s' (hash_func k) \<and> size_ds s' = size_ds s \<and> capacity s' = capacity s
           \<and> search s' k = None"
  using assms
  by (simp add: delete_def contains_def size_ds_def search_def update_conv' length_update_present)

theorem delete_sole_node_keeps_bucket_witness:
  "\<exists>s'. delete \<lparr>cache = [(hash_func ''a'', [Node ''a'' (1::int)])], capacity = 10\<rparr> ''a'' = (Inr (), s')
     \<and> map_of (cache s') (hash_func ''a'') = Some [] \<and> size_ds s' = 1 \<and> search s' ''a'' = None"
  using delete_sole_node_keeps_bucket
    [of "\<lparr>cache = [(hash_func ''a'', [Node ''a'' (1::int)])], capacity = 10\<rparr>" "''a''" "Node ''a'' 1"]
  by (simp add: size_ds_def) blast

text \<open>
  C6, as stated, fails in its last part: the inserts by which \<open>resize\<close> rehashes the table
  apply the growth rule of lines 88-89 themselves. A table that holds \<open>a\<close> and \<open>b\<close> and is
  resized to 1 ends with capacity 2, whether or not the two digests differ.
\<close>

theorem resize_capacity_counterexample:
  "insert_fuel (Suc 0) (init 10) ''a'' (1::int) = Some (Inr (Node ''a'' 1), push (init 10) ''a'' 1)
   \<and> insert_fuel (Suc 0) (push (init 10) ''a'' (1::int)) ''b'' 2
       = Some (Inr (Node ''b'' 2), push (push (init 10) ''a'' 1) ''b'' 2)
   \<and> map_option (map_prod id capacity)
         (resize_fuel (Suc (Suc 0)) (push (push (init 10) ''a'' (1::int)) ''b'' 2) 1) = Some (Inr (), 2)"
  by (cases "hash_func ''a'' = hash_func ''b''") (simp_all add: run_simps)

text \<open>
  C6, amended: for every \<open>n > 0\<close> and every reachable table, \<open>resize(n)\<close> returns and
  preserves every key/value pair: \<open>search(k)\<close> returns afterwards what it returned before,
  for every \<open>k\<close>. The capacity afterwards is at least \<open>n\<close>; it equals \<open>n\<close> when the table
  had fewer than \<open>n\<close> buckets.
\<close>

theorem resize_keeps_pairs:
  assumes "reachable s" and "0 < n"
  shows "\<exists>s'. resize_fuel (Suc (Suc m)) s n = Some (Inr (), s')
           \<and> (\<forall>k. search s' k = search s k) \<and> n \<le> capacity s'
           \<and> (size_ds s < n \<longrightarrow> capacity s' = n)"
proof -
  have w: "wf s" using assms(1) by (rule reachable_wf)
  from resize_ok [OF w assms(2), of m] obtain s' where
    r: "resize_fuel (Suc (Suc m)) s n = Some (Inr (), s')"
    and p: "\<forall>k. search s' k = search s k" "n \<le> capacity s'"
    by blast
  have "capacity s' = n" if "size_ds s < n"
    using resize_exact [OF w assms(2) that, of "Suc m"] r by auto
  with r p show ?thesis by blast
qed

theorem resize_keeps_pairs_witness:
  "\<exists>s'. resize_fuel (Suc (Suc 0)) \<lparr>cache = [(hash_func ''a'', [Node ''a'' (1::int)])], capacity = 10\<rparr> 5
          = Some (Inr (), s')
     \<and> search s' ''a'' = Some (Node ''a'' 1) \<and> capacity s' = 5"
proof -
  let ?s = "\<lparr>cache = [(hash_func ''a'', [Node ''a'' (1::int)])], capacity = 10\<rparr>"
  have "insert_fuel (Suc 0) (init 10) ''a'' (1::int) = Some (Inr (Node ''a'' 1), ?s)"
    by (simp add: run_simps)
  then have r: "reachable ?s" by (rule r_insert [OF r_init])
  have s: "search ?s ''a'' = Some (Node ''a'' 1)" "size_ds ?s < 5"
    by (simp_all add: run_simps)
  from resize_keeps_pairs [OF r, of 5 0] s show ?thesis
    by auto
qed

text \<open>
  C7. In a reachable table whose size equals its capacity, a successful \<open>insert\<close> has
  resized to \<open>ceil(capacity * 1.5)\<close> and then placed the node in the resized table; it ends
  with that capacity, the new key found with its value and every other key found as
  before. When the capacity is positive and the key is new, the \<open>insert\<close> does succeed,
  with two levels of calls.
\<close>

theorem insert_into_full_table:
  assumes "reachable s" and "size_ds s = capacity s"
  shows "(0 < capacity s \<and> search s k = None \<longrightarrow>
            (\<exists>s'. insert_fuel (Suc (Suc m)) s k v = Some (Inr (Node k v), s')))
         \<and> (insert_fuel n s k v = Some (Inr nd, s') \<longrightarrow>
              (\<exists>j t. resize_fuel j s \<lceil>real_of_int (capacity s) * 1.5\<rceil> = Some (Inr (), t)
                      \<and> place t k v = (Inr nd, s'))
              \<and> capacity s' = \<lceil>real_of_int (capacity s) * 1.5\<rceil>
              \<and> (\<forall>k'. search s' k' = (if k' = k then Some (Node k v) else search s k')))"
proof (intro conjI impI)
  have w: "wf s" using assms(1) by (rule reachable_wf)
  {
    assume "0 < capacity s \<and> search s k = None"
    then show "\<exists>s'. insert_fuel (Suc (Suc m)) s k v = Some (Inr (Node k v), s')"
      using insert_grow [OF w assms(2), of k m v] by blast
  }
  assume i: "insert_fuel n s k v = Some (Inr nd, s')"
  have i': "insert_fuel (Suc (Suc n)) s k v = Some (Inr nd, s')"
    using i by (rule insert_fuel_mono) simp
  from i' assms(2) obtain u t where
    r: "resize_fuel (Suc n) s (grown (capacity s)) = Some (Inr u, t)"
    and p: "place t k v = (Inr nd, s')"
    by (auto simp del: resize_fuel.simps split: option.splits sum.splits)
  have "0 < grown (capacity s)"
    using r by (auto split: if_splits)
  then have pos: "0 < capacity s"
    by (simp add: grown_int)
  from regrow [OF w assms(2) pos, of n] r have
    c: "capacity t = grown (capacity s)" and e: "\<forall>k. search t k = search s k"
    by auto
  from place_cases [OF p] have s': "s' = push t k v" by auto
  show "\<exists>j t. resize_fuel j s \<lceil>real_of_int (capacity s) * 1.5\<rceil> = Some (Inr (), t)
          \<and> place t k v = (Inr nd, s')"
    using r p unfolding grown_def by (cases u) blast
  show "capacity s' = \<lceil>real_of_int (capacity s) * 1.5\<rceil>"
    using c s' by (simp add: capacity_push grown_def)
  show "\<forall>k'. search s' k' = (if k' = k then Some (Node k v) else search s k')"
    using e s' by (simp add: search_push)
qed

theorem insert_into_full_table_witness:
  "\<exists>s'. insert_fuel (Suc (Suc 0)) \<lparr>cache = [(hash_func ''a'', [Node ''a'' (1::int)])], capacity = 1\<rparr> ''b'' 2
          = Some (Inr (Node ''b'' 2), s')
     \<and> capacity s' = 2 \<and> search s' ''a'' = Some (Node ''a'' 1) \<and> search s' ''b'' = Some (Node ''b'' 2)"
proof -
  let ?s = "\<lparr>cache = [(hash_func ''a'', [Node ''a'' (1::int)])], capacity = 1\<rparr>"
  have "insert_fuel (Suc 0) (init 1) ''a'' (1::int) = Some (Inr (Node ''a'' 1), ?s)"
    by (simp add: run_simps)
  then have r: "reachable ?s" by (rule r_insert [OF r_init])
  have f: "size_ds ?s = capacity ?s" "0 < capacity ?s" "search ?s ''b'' = None"
    "search ?s ''a'' = Some (Node ''a'' 1)"
    by (simp_all add: run_simps)
  have g: "\<lceil>real_of_int (capacity ?s) * 1.5\<rceil> = 2"
    using grown_int [of 1] by (simp add: grown_def)
  from insert_into_full_table [OF r f(1), of "''b''" 0 2] f(2,3) obtain s' where
    i: "insert_fuel (Suc (Suc 0)) ?s ''b'' 2 = Some (Inr (Node ''b'' 2), s')"
    by blast
  from insert_into_full_table [OF r f(1), of "''b''" 0 2 "Suc (Suc 0)" "Node ''b'' 2" s'] i g f(4)
  show ?thesis by auto
qed

text \<open>
  C8. The constructor (lines 40-43) stores its argument unchecked, although \<open>resize\<close>
  (lines 69-70) refuses the same values with "Capacity must be greater than 0". A table
  made with capacity 0 has capacity 0 and refuses every \<open>insert\<close>; one made with capacity
  \<open>-1\<close> accepts inserts and keeps capacity \<open>-1\<close>.
\<close>

theorem constructor_keeps_nonpositive_capacity:
  "capacity (init 0 :: int DataStore) = 0
   \<and> insert_fuel (Suc n) (init 0) ''a'' (1::int) = Some (Inl InvalidCapacityError, init 0)
   \<and> capacity (init (- 1) :: int DataStore) = - 1
   \<and> insert_fuel (Suc n) (init (- 1)) ''a'' (1::int)
       = Some (Inr (Node ''a'' 1), \<lparr>cache = [(hash_func ''a'', [Node ''a'' 1])], capacity = - 1\<rparr>)"
  by (simp add: run_simps)

text \<open>
  C10. A successful \<open>update(k, v)\<close> returns the node of \<open>k\<close> with the new value; afterwards
  \<open>search\<close> finds \<open>k\<close> with \<open>v\<close> and every other key exactly as before, and the buckets, their
  order, the keys of every chain in order and the capacity are what they were.
\<close>

theorem update_changes_one_value:
  assumes "update s k v = (Inr nd, s')"
  shows "nd = Node k v \<and> search s' k = Some (Node k v)
         \<and> (\<forall>k'. k' \<noteq> k \<longrightarrow> search s' k' = search s k')
         \<and> map (\<lambda>(d, c). (d, map key c)) (cache s') = map (\<lambda>(d, c). (d, map key c)) (cache s)
         \<and> capacity s' = capacity s"
proof -
  from assms obtain chain chain' where
    m: "map_of (cache s) (hash_func k) = Some chain"
    and sv: "set_value chain k v = Some (nd, chain')"
    and s': "s' = s\<lparr>cache := AList.update (hash_func k) chain' (cache s)\<rparr>"
    by (auto simp: update_def Let_def split: option.splits)
  have nd: "nd = Node k v" and ks: "map key chain' = map key chain"
    using set_value_keys [OF sv] by simp_all
  have f: "\<And>k'. find (\<lambda>n. key n = k') chain' = (if k' = k then Some (Node k v) else find (\<lambda>n. key n = k') chain)"
    using sv by (rule set_value_find)
  have "search s' k = Some (Node k v)"
    using f by (simp add: s' search_alt update_conv')
  moreover have "\<forall>k'. k' \<noteq> k \<longrightarrow> search s' k' = search s k'"
    using f m by (simp add: s' search_alt update_conv')
  moreover have "map (\<lambda>(d, c). (d, map key c)) (cache s') = map (\<lambda>(d, c). (d, map key c)) (cache s)"
    using update_same_keys [OF m ks] by (simp add: s')
  ultimately show ?thesis
    using nd by (simp add: s')
qed

theorem update_changes_one_value_witness:
  "fst (update (push (push (init 10) ''a'' (1::int)) ''b'' 2) ''a'' 5) = Inr (Node ''a'' 5)
   \<and> search (push (push (init 10) ''a'' (1::int)) ''b'' 2) ''b'' = Some (Node ''b'' 2)
   \<and> search (snd (update (push (push (init 10) ''a'' (1::int)) ''b'' 2) ''a'' 5)) ''b'' = Some (Node ''b'' 2)
   \<and> search (snd (update (push (push (init 10) ''a'' (1::int)) ''b'' 2) ''a'' 5)) ''a'' = Some (Node ''a'' 5)"
proof -
  let ?s = "push (push (init 10) ''a'' (1::int)) ''b'' 2"
  have u: "fst (update ?s ''a'' 5) = Inr (Node ''a'' 5)"
    by (cases "hash_func ''a'' = hash_func ''b''") (simp_all add: update_def push_def init_def)
  then have "update ?s ''a'' 5 = (Inr (Node ''a'' 5), snd (update ?s ''a'' 5))"
    by (metis prod.collapse)
  from update_changes_one_value [OF this] u show ?thesis
    by (simp add: search_push)
qed

end
